theory Spec2Isabelle
  imports Main "HOL-Library.Word" "HOL-Library.Multiset"
begin

unbundle bit_operations_syntax

section \<open>The consistent-hashing ring of \<^verbatim>\<open>Main.py\<close>\<close>

text \<open>
  The class \<^verbatim>\<open>ConsistentHash\<close> keeps three attributes: \<^verbatim>\<open>replicas\<close> (a Python
  integer), \<^verbatim>\<open>ring\<close> (a dict from hash positions to node names) and
  \<^verbatim>\<open>sorted_keys\<close> (a list of hash positions). Python integers are unbounded, so
  positions are natural numbers; node names and keys are strings whose characters are
  the code points below 256. Every method takes the object and returns it, together
  with either the value returned or the exception raised; an exception leaves the
  object as it was mutated up to the raise.
\<close>

subsection \<open>MD5 (RFC 1321), as computed by \<^verbatim>\<open>hashlib.md5\<close>\<close>

text \<open>
  \<^verbatim>\<open>hashlib\<close> is library code. The digest is modelled on bytes and 32-bit words held
  as natural numbers, with the reduction modulo \<open>2 ^ 32 = 4294967296\<close> written out.
\<close>

definition md5_K :: "nat list" where
  "md5_K = [0xd76aa478, 0xe8c7b756, 0x242070db, 0xc1bdceee, 0xf57c0faf, 0x4787c62a, 0xa8304613, 0xfd469501, 0x698098d8, 0x8b44f7af, 0xffff5bb1, 0x895cd7be, 0x6b901122, 0xfd987193, 0xa679438e, 0x49b40821, 0xf61e2562, 0xc040b340, 0x265e5a51, 0xe9b6c7aa, 0xd62f105d, 0x02441453, 0xd8a1e681, 0xe7d3fbc8, 0x21e1cde6, 0xc33707d6, 0xf4d50d87, 0x455a14ed, 0xa9e3e905, 0xfcefa3f8, 0x676f02d9, 0x8d2a4c8a, 0xfffa3942, 0x8771f681, 0x6d9d6122, 0xfde5380c, 0xa4beea44, 0x4bdecfa9, 0xf6bb4b60, 0xbebfbc70, 0x289b7ec6, 0xeaa127fa, 0xd4ef3085, 0x04881d05, 0xd9d4d039, 0xe6db99e5, 0x1fa27cf8, 0xc4ac5665, 0xf4292244, 0x432aff97, 0xab9423a7, 0xfc93a039, 0x655b59c3, 0x8f0ccc92, 0xffeff47d, 0x85845dd1, 0x6fa87e4f, 0xfe2ce6e0, 0xa3014314, 0x4e0811a1, 0xf7537e82, 0xbd3af235, 0x2ad7d2bb, 0xeb86d391]"

definition md5_S :: "nat list" where
  "md5_S = [7, 12, 17, 22, 7, 12, 17, 22, 7, 12, 17, 22, 7, 12, 17, 22,
            5, 9, 14, 20, 5, 9, 14, 20, 5, 9, 14, 20, 5, 9, 14, 20,
            4, 11, 16, 23, 4, 11, 16, 23, 4, 11, 16, 23, 4, 11, 16, 23,
            6, 10, 15, 21, 6, 10, 15, 21, 6, 10, 15, 21, 6, 10, 15, 21]"

definition not32 :: "nat \<Rightarrow> nat" where
  "not32 x = 4294967295 - x mod 4294967296"

definition rotl32 :: "nat \<Rightarrow> nat \<Rightarrow> nat" where
  "rotl32 x n = (x * 2 ^ n) mod 4294967296 OR x div 2 ^ (32 - n)"

definition md5_F :: "nat \<Rightarrow> nat \<Rightarrow> nat \<Rightarrow> nat \<Rightarrow> nat" where
  "md5_F i b c d =
     (if i < 16 then (b AND c) OR (not32 b AND d)
      else if i < 32 then (d AND b) OR (not32 d AND c)
      else if i < 48 then b XOR c XOR d
      else c XOR (b OR not32 d))"

definition md5_g :: "nat \<Rightarrow> nat" where
  "md5_g i =
     (if i < 16 then i
      else if i < 32 then (5 * i + 1) mod 16
      else if i < 48 then (3 * i + 5) mod 16
      else (7 * i) mod 16)"

type_synonym md5_state = "nat \<times> nat \<times> nat \<times> nat"

fun md5_step :: "nat list \<Rightarrow> md5_state \<Rightarrow> nat \<Rightarrow> md5_state" where
  "md5_step m (a, b, c, d) i =
     (d, (b + rotl32 ((md5_F i b c d + a + md5_K ! i + m ! md5_g i) mod 4294967296) (md5_S ! i))
          mod 4294967296, b, c)"

definition le_word32 :: "nat list \<Rightarrow> nat \<Rightarrow> nat" where
  "le_word32 blk k =
     blk ! (4 * k) + 256 * blk ! (4 * k + 1) + 65536 * blk ! (4 * k + 2)
       + 16777216 * blk ! (4 * k + 3)"

definition md5_words :: "nat list \<Rightarrow> nat list" where
  "md5_words blk = map (le_word32 blk) [0..<16]"

fun md5_add :: "md5_state \<Rightarrow> md5_state \<Rightarrow> md5_state" where
  "md5_add (a0, b0, c0, d0) (a, b, c, d) =
     ((a0 + a) mod 4294967296, (b0 + b) mod 4294967296,
      (c0 + c) mod 4294967296, (d0 + d) mod 4294967296)"

definition md5_block :: "md5_state \<Rightarrow> nat list \<Rightarrow> md5_state" where
  "md5_block st blk = md5_add st (foldl (md5_step (md5_words blk)) st [0..<64])"

definition md5_pad :: "nat list \<Rightarrow> nat list" where
  "md5_pad bs =
     bs @ [128] @ replicate ((119 - length bs mod 64) mod 64) 0
        @ map (\<lambda>k. (8 * length bs) div 256 ^ k mod 256) [0..<8]"

definition md5_blocks :: "nat list \<Rightarrow> nat list list" where
  "md5_blocks bs = map (\<lambda>k. take 64 (drop (64 * k) bs)) [0..<length bs div 64]"

definition le_bytes32 :: "nat \<Rightarrow> nat list" where
  "le_bytes32 w = map (\<lambda>k. w div 256 ^ k mod 256) [0..<4]"

definition md5_init :: md5_state where
  "md5_init = (0x67452301, 0xefcdab89, 0x98badcfe, 0x10325476)"

fun md5_out :: "md5_state \<Rightarrow> nat list" where
  "md5_out (a, b, c, d) = le_bytes32 a @ le_bytes32 b @ le_bytes32 c @ le_bytes32 d"

definition md5_digest :: "nat list \<Rightarrow> nat list" where
  "md5_digest bs = md5_out (foldl md5_block md5_init (md5_blocks (md5_pad bs)))"

subsection \<open>Strings\<close>

text \<open>\<^verbatim>\<open>key.encode('utf-8')\<close>: one byte below 128, two bytes from 128 to 255.\<close>

definition utf8_char :: "char \<Rightarrow> nat list" where
  "utf8_char c =
     (let n = (of_char c :: nat)
      in if n < 128 then [n] else [192 + n div 64, 128 + n mod 64])"

definition encode_utf8 :: "string \<Rightarrow> nat list" where
  "encode_utf8 s = concat (map utf8_char s)"

text \<open>The decimal digits of a loop index, as the f-string \<^verbatim>\<open>{i}\<close> prints them.\<close>

function str_nat :: "nat \<Rightarrow> string" where
  "str_nat n =
     (if n < 10 then [''0123456789'' ! n]
      else str_nat (n div 10) @ [''0123456789'' ! (n mod 10)])"
  by pat_completeness auto
termination
  by (relation "measure id") auto

declare str_nat.simps [simp del]

text \<open>\<^verbatim>\<open>f"{node}:{i}"\<close>\<close>

definition vnode_key :: "string \<Rightarrow> nat \<Rightarrow> string" where
  "vnode_key node i = node @ '':'' @ str_nat i"

subsection \<open>The object and its results\<close>

record consistent_hash =
  replicas :: int
  ring :: "nat \<rightharpoonup> string"
  sorted_keys :: "nat list"

datatype py_error = KeyError | ValueError | IndexError

type_synonym 'a outcome = "consistent_hash \<times> (py_error + 'a)"

subsection \<open>\<^verbatim>\<open>_hash\<close>\<close>

text \<open>\<^verbatim>\<open>struct.unpack('>I', bs)[0]\<close>: the bytes read as a big-endian number.\<close>

definition unpack_be :: "nat list \<Rightarrow> nat" where
  "unpack_be bs = foldl (\<lambda>acc b. 256 * acc + b) 0 bs"

definition hash :: "consistent_hash \<Rightarrow> string \<Rightarrow> nat" where
  "hash self key = unpack_be (take 4 (md5_digest (encode_utf8 key)))"

subsection \<open>\<^verbatim>\<open>add_node\<close>\<close>

text \<open>One iteration of the loop, then the loop over \<^verbatim>\<open>range(self.replicas)\<close> and the sort.\<close>

definition add_vnode :: "string \<Rightarrow> consistent_hash \<Rightarrow> nat \<Rightarrow> consistent_hash" where
  "add_vnode node self i =
     (let h = hash self (vnode_key node i)
      in self\<lparr>ring := (ring self)(h \<mapsto> node), sorted_keys := sorted_keys self @ [h]\<rparr>)"

definition add_node :: "consistent_hash \<Rightarrow> string \<Rightarrow> unit outcome" where
  "add_node self node =
     (let s1 = foldl (add_vnode node) self [0..<nat (replicas self)]
      in (s1\<lparr>sorted_keys := sort (sorted_keys s1)\<rparr>, Inr ()))"

subsection \<open>\<^verbatim>\<open>remove_node\<close>\<close>

text \<open>
  \<^verbatim>\<open>del self.ring[h]\<close> raises KeyError on a missing key; \<^verbatim>\<open>list.remove\<close> deletes the
  first occurrence and raises ValueError when there is none.
\<close>

fun remove_loop :: "string \<Rightarrow> consistent_hash \<Rightarrow> nat list \<Rightarrow> unit outcome" where
  "remove_loop node self [] = (self, Inr ())"
| "remove_loop node self (i # rest) =
     (let h = hash self (vnode_key node i)
      in if ring self h = None then (self, Inl KeyError)
         else let s1 = self\<lparr>ring := (ring self)(h := None)\<rparr>
              in if h \<notin> set (sorted_keys s1) then (s1, Inl ValueError)
                 else remove_loop node (s1\<lparr>sorted_keys := remove1 h (sorted_keys s1)\<rparr>) rest)"

definition remove_node :: "consistent_hash \<Rightarrow> string \<Rightarrow> unit outcome" where
  "remove_node self node = remove_loop node self [0..<nat (replicas self)]"

subsection \<open>\<^verbatim>\<open>get_node\<close>\<close>

text \<open>\<^verbatim>\<open>bisect.bisect_left(a, x)\<close> with its default bounds \<open>0\<close> and \<open>len(a)\<close>.\<close>

function bisect_loop :: "nat list \<Rightarrow> nat \<Rightarrow> nat \<Rightarrow> nat \<Rightarrow> nat" where
  "bisect_loop a x lo hi =
     (if lo < hi
      then (let mid = (lo + hi) div 2
            in if a ! mid < x then bisect_loop a x (mid + 1) hi
               else bisect_loop a x lo mid)
      else lo)"
  by pat_completeness auto
termination
  by (relation "measure (\<lambda>(a, x, lo, hi). hi - lo)") auto

declare bisect_loop.simps [simp del]

definition bisect_left :: "nat list \<Rightarrow> nat \<Rightarrow> nat" where
  "bisect_left a x = bisect_loop a x 0 (length a)"

definition get_node :: "consistent_hash \<Rightarrow> string \<Rightarrow> string option outcome" where
  "get_node self key =
     (if ring self = Map.empty then (self, Inr None)
      else let h = hash self key;
               idx0 = bisect_left (sorted_keys self) h;
               idx = (if idx0 = length (sorted_keys self) then 0 else idx0)
           in if length (sorted_keys self) \<le> idx then (self, Inl IndexError)
              else case ring self (sorted_keys self ! idx) of
                     None \<Rightarrow> (self, Inl KeyError)
                   | Some node \<Rightarrow> (self, Inr (Some node)))"

subsection \<open>\<^verbatim>\<open>__init__\<close>\<close>

definition init :: "string list option \<Rightarrow> int \<Rightarrow> consistent_hash" where
  "init nodes r =
     (let self = \<lparr>replicas = r, ring = Map.empty, sorted_keys = []\<rparr>
      in case nodes of
           None \<Rightarrow> self
         | Some ns \<Rightarrow> foldl (\<lambda>s node. fst (add_node s node)) self ns)"

subsection \<open>Vocabulary of the properties\<close>

text \<open>
  The positions that the loops of \<^verbatim>\<open>add_node\<close> and \<^verbatim>\<open>remove_node\<close> visit for a node,
  in loop order.
\<close>

definition positions :: "consistent_hash \<Rightarrow> string \<Rightarrow> nat list" where
  "positions self node = map (\<lambda>i. hash self (vnode_key node i)) [0..<nat (replicas self)]"


text \<open>
  A node can be added without any collision: its positions differ from one another and
  none of them is occupied.
\<close>

definition fresh :: "consistent_hash \<Rightarrow> string \<Rightarrow> bool" where
  "fresh self node \<longleftrightarrow>
     distinct (positions self node) \<and> set (positions self node) \<inter> dom (ring self) = {}"






text \<open>
  The object after \<^verbatim>\<open>ConsistentHash(["n47651"], 1)\<close>, \<^verbatim>\<open>add_node("n73991")\<close>,
  \<^verbatim>\<open>remove_node("n73991")\<close> and \<^verbatim>\<open>add_node("A")\<close>: every call within its precondition.
\<close>

definition collided_ring :: consistent_hash where
  "collided_ring =
     fst (add_node (fst (remove_node (fst (add_node (init (Some [''n47651'']) 1) ''n73991''))
                           ''n73991'')) ''A'')"

section \<open>Evaluating the hash\<close>

lemma replicate_numeral: "replicate (numeral v) x = x # replicate (pred_numeral v) x"
  by (simp add: numeral_eq_Suc)

lemmas md5_eval = md5_digest_def md5_blocks_def md5_block_def md5_words_def md5_pad_def
  le_word32_def le_bytes32_def upt_rec replicate_numeral md5_init_def md5_F_def md5_K_def
  md5_S_def md5_g_def rotl32_def not32_def

lemmas hash_eval = hash_def unpack_be_def encode_utf8_def utf8_char_def md5_eval

text \<open>The RFC's test vector: the digest of \<^verbatim>\<open>abc\<close> is \<^verbatim>\<open>900150983cd24fb0d6963f7d28e17f72\<close>.\<close>

lemma md5_digest_abc:
  "md5_digest (encode_utf8 ''abc'') =
     [0x90, 0x01, 0x50, 0x98, 0x3c, 0xd2, 0x4f, 0xb0, 0xd6, 0x96, 0x3f, 0x7d, 0x28, 0xe1, 0x7f, 0x72]"
  by (simp add: encode_utf8_def utf8_char_def md5_eval)

lemma hash_A0: "hash s ''A:0'' = 1474421281"
  by (simp add: hash_eval)

lemma hash_B0: "hash s ''B:0'' = 720967041"
  by (simp add: hash_eval)

lemma hash_n47651: "hash s ''n47651:0'' = 1196326569"
  by (simp add: hash_eval)

lemma hash_n73991: "hash s ''n73991:0'' = 1196326569"
  by (simp add: hash_eval)

lemma vnode_key_0: "vnode_key node 0 = node @ '':0''"
  by (simp add: vnode_key_def str_nat.simps)

lemma hash_k: "hash s ''k'' = 2363797867"
  by (simp add: hash_eval)

section \<open>The hash is a function of the key alone, and has 32 bits\<close>

lemma le_bytes32_explicit:
  "le_bytes32 w = [w mod 256, w div 256 mod 256, w div 65536 mod 256, w div 16777216 mod 256]"
  by (simp add: le_bytes32_def upt_rec)

lemma take4_md5_digest: "\<exists>w. take 4 (md5_digest bs) = le_bytes32 w"
proof -
  obtain a b c d where "foldl md5_block md5_init (md5_blocks (md5_pad bs)) = (a, b, c, d)"
    by (metis prod_cases4)
  then have "take 4 (md5_digest bs) = le_bytes32 a"
    by (simp add: md5_digest_def le_bytes32_explicit)
  then show ?thesis ..
qed

lemma unpack_be_le_bytes32: "unpack_be (le_bytes32 w) < 4294967296"
proof -
  have "w mod 256 < 256" "w div 256 mod 256 < 256" "w div 65536 mod 256 < 256"
    "w div 16777216 mod 256 < 256"
    by simp_all
  then show ?thesis
    unfolding le_bytes32_explicit unpack_be_def by simp
qed

section \<open>Adding a node\<close>

lemma hash_self: "hash s k = hash s' k"
  by (simp add: hash_def)


lemma foldl_add_vnode_replicas: "replicas (foldl (add_vnode node) s js) = replicas s"
  by (induction js arbitrary: s) (simp_all add: add_vnode_def Let_def)

lemma foldl_add_vnode_sorted_keys:
  "sorted_keys (foldl (add_vnode node) s js)
     = sorted_keys s @ map (\<lambda>i. hash s0 (vnode_key node i)) js"
  by (induction js arbitrary: s) (simp_all add: add_vnode_def Let_def hash_def)

lemma foldl_add_vnode_ring:
  "ring (foldl (add_vnode node) s js) p
     = (if p \<in> set (map (\<lambda>i. hash s0 (vnode_key node i)) js) then Some node else ring s p)"
  by (induction js arbitrary: s) (auto simp add: add_vnode_def Let_def hash_def)

lemma add_node_result: "snd (add_node s node) = Inr ()"
  by (simp add: add_node_def Let_def)

lemma add_node_replicas: "replicas (fst (add_node s node)) = replicas s"
  by (simp add: add_node_def Let_def foldl_add_vnode_replicas)

lemma add_node_sorted_keys:
  "sorted_keys (fst (add_node s node)) = sort (sorted_keys s @ positions s node)"
  by (simp add: add_node_def Let_def positions_def foldl_add_vnode_sorted_keys [of _ _ _ s])

lemma add_node_ring:
  "ring (fst (add_node s node)) p
     = (if p \<in> set (positions s node) then Some node else ring s p)"
  by (simp add: add_node_def Let_def positions_def foldl_add_vnode_ring [of _ _ _ _ s])

lemma add_node_dom: "dom (ring (fst (add_node s node))) = dom (ring s) \<union> set (positions s node)"
  by (auto simp add: add_node_ring dom_def)



lemma remove_loop_ok:
  assumes g: "\<And>s i. hash s (vnode_key node i) = g i"
    and "distinct (map g js)"
    and "set (map g js) \<subseteq> dom (ring s)"
    and "set (map g js) \<subseteq> set (sorted_keys s)"
  shows "remove_loop node s js =
           (s\<lparr>ring := (\<lambda>p. if p \<in> set (map g js) then None else ring s p),
              sorted_keys := fold remove1 (map g js) (sorted_keys s)\<rparr>, Inr ())"
  using assms(2-)
proof (induction js arbitrary: s)
  case Nil
  then show ?case by simp
next
  case (Cons i rest)
  let ?s2 = "s\<lparr>ring := (ring s)(g i := None), sorted_keys := remove1 (g i) (sorted_keys s)\<rparr>"
  have in_dom: "ring s (g i) \<noteq> None" and in_keys: "g i \<in> set (sorted_keys s)"
    using Cons.prems by auto
  have step: "remove_loop node s (i # rest) = remove_loop node ?s2 rest"
    by (simp add: g in_dom in_keys Let_def)
  have d: "distinct (map g rest)"
    using Cons.prems(1) by simp
  have rest_ok: "p \<in> dom (ring s) \<and> p \<in> set (sorted_keys s) \<and> p \<noteq> g i"
    if "p \<in> set (map g rest)" for p
    using that Cons.prems by (auto simp add: image_iff)
  have sub1: "set (map g rest) \<subseteq> dom (ring ?s2)"
  proof
    fix p assume "p \<in> set (map g rest)"
    then have "p \<in> dom (ring s)" "p \<noteq> g i"
      using rest_ok by blast+
    then show "p \<in> dom (ring ?s2)"
      by simp
  qed
  have sub2: "set (map g rest) \<subseteq> set (sorted_keys ?s2)"
  proof
    fix p assume "p \<in> set (map g rest)"
    then have "p \<in> set (sorted_keys s)" "p \<noteq> g i"
      using rest_ok by blast+
    then show "p \<in> set (sorted_keys ?s2)"
      by simp
  qed
  have "(\<lambda>p. if p \<in> set (map g rest) then None else ring ?s2 p)
          = (\<lambda>p. if p \<in> set (map g (i # rest)) then None else ring s p)"
    by (rule ext) auto
  then show ?case
    unfolding step Cons.IH [OF d sub1 sub2] by simp
qed

lemma mset_fold_remove1: "mset (fold remove1 ps xs) = mset xs - mset ps"
  by (induction ps arbitrary: xs) (auto simp add: multiset_eq_iff)

lemma sorted_fold_remove1: "sorted xs \<Longrightarrow> sorted (fold remove1 ps xs)"
  by (induction ps arbitrary: xs) (simp_all add: sorted_remove1)

lemma add_remove_sorted_keys:
  assumes "sorted xs"
  shows "fold remove1 ps (sort (xs @ ps)) = xs"
proof -
  have "mset (fold remove1 ps (sort (xs @ ps))) = mset xs"
    by (simp add: mset_fold_remove1)
  moreover have "sorted (fold remove1 ps (sort (xs @ ps)))"
    by (simp add: sorted_fold_remove1)
  ultimately have "sort xs = fold remove1 ps (sort (xs @ ps))"
    by (metis properties_for_sort)
  then show ?thesis
    using assms by (simp add: sorted_sort_id)
qed

section \<open>The ring invariant\<close>








section \<open>Binary search and the successor rule\<close>

lemma bisect_loop_spec:
  assumes "sorted a" "lo \<le> hi" "hi \<le> length a"
    and "\<forall>i<lo. a ! i < x"
    and "\<forall>i. hi \<le> i \<and> i < length a \<longrightarrow> x \<le> a ! i"
  shows "lo \<le> bisect_loop a x lo hi \<and> bisect_loop a x lo hi \<le> hi
         \<and> (\<forall>i<bisect_loop a x lo hi. a ! i < x)
         \<and> (\<forall>i. bisect_loop a x lo hi \<le> i \<and> i < length a \<longrightarrow> x \<le> a ! i)"
  using assms
proof (induction a x lo hi rule: bisect_loop.induct)
  case (1 a x lo hi)
  show ?case
  proof (cases "lo < hi")
    case False
    then have "lo = hi" using "1.prems"(2) by simp
    then show ?thesis
      using "1.prems" by (simp add: bisect_loop.simps [of a x hi hi])
  next
    case True
    let ?mid = "(lo + hi) div 2"
    have mid: "lo \<le> ?mid" "?mid < hi" using True by auto
    show ?thesis
    proof (cases "a ! ?mid < x")
      case lt: True
      have below: "\<forall>i<?mid + 1. a ! i < x"
      proof (intro allI impI)
        fix i assume "i < ?mid + 1"
        then have "a ! i \<le> a ! ?mid"
          using "1.prems"(1,3) mid by (intro sorted_nth_mono) auto
        then show "a ! i < x" using lt by simp
      qed
      have "?mid + 1 \<le> bisect_loop a x (?mid + 1) hi \<and> bisect_loop a x (?mid + 1) hi \<le> hi
         \<and> (\<forall>i<bisect_loop a x (?mid + 1) hi. a ! i < x)
         \<and> (\<forall>i. bisect_loop a x (?mid + 1) hi \<le> i \<and> i < length a \<longrightarrow> x \<le> a ! i)"
        using "1.IH"(1) [OF True refl lt "1.prems"(1) _ "1.prems"(3) below "1.prems"(5)] mid
        by simp
      moreover have "bisect_loop a x lo hi = bisect_loop a x (?mid + 1) hi"
        using True lt by (simp add: bisect_loop.simps [of a x lo hi] Let_def)
      ultimately show ?thesis using mid by simp
    next
      case ge: False
      have above: "\<forall>i. ?mid \<le> i \<and> i < length a \<longrightarrow> x \<le> a ! i"
      proof (intro allI impI)
        fix i assume "?mid \<le> i \<and> i < length a"
        then have "a ! ?mid \<le> a ! i"
          using "1.prems"(1) by (intro sorted_nth_mono) auto
        then show "x \<le> a ! i" using ge by simp
      qed
      have "lo \<le> bisect_loop a x lo ?mid \<and> bisect_loop a x lo ?mid \<le> ?mid
         \<and> (\<forall>i<bisect_loop a x lo ?mid. a ! i < x)
         \<and> (\<forall>i. bisect_loop a x lo ?mid \<le> i \<and> i < length a \<longrightarrow> x \<le> a ! i)"
        using "1.IH"(2) [OF True refl ge "1.prems"(1) mid(1) _ "1.prems"(4) above] mid "1.prems"(3)
        by simp
      moreover have "bisect_loop a x lo hi = bisect_loop a x lo ?mid"
        using True ge by (simp add: bisect_loop.simps [of a x lo hi] Let_def)
      ultimately show ?thesis using mid by simp
    qed
  qed
qed

lemma bisect_left_spec:
  assumes "sorted a"
  shows "bisect_left a x \<le> length a
         \<and> (\<forall>i<bisect_left a x. a ! i < x)
         \<and> (\<forall>i. bisect_left a x \<le> i \<and> i < length a \<longrightarrow> x \<le> a ! i)"
  using bisect_loop_spec [of a 0 "length a" x] assms by (simp add: bisect_left_def)

lemma nth_of_mem: "q \<in> set xs \<Longrightarrow> \<exists>j. j < length xs \<and> q = xs ! j"
  by (simp add: in_set_conv_nth) blast

lemma sorted_nth0_Min:
  assumes "sorted xs" "xs \<noteq> []"
  shows "xs ! 0 = Min (set xs)"
proof -
  have "xs ! 0 \<le> q" if q: "q \<in> set xs" for q
  proof -
    obtain j where "j < length xs" "q = xs ! j"
      using nth_of_mem [OF q] by blast
    then show ?thesis
      using assms(1) by (simp add: sorted_nth_mono)
  qed
  moreover have "xs ! 0 \<in> set xs"
    using assms(2) by simp
  ultimately show ?thesis
    by (intro Min_eqI [symmetric]) auto
qed

lemma successor_lookup:
  assumes ne: "ring s \<noteq> Map.empty"
    and so: "sorted (sorted_keys s)"
    and eq: "set (sorted_keys s) = dom (ring s)"
  shows "\<exists>p n. get_node s key = (s, Inr (Some n)) \<and> ring s p = Some n
           \<and> p = sorted_keys s !
                 (if bisect_left (sorted_keys s) (hash s key) = length (sorted_keys s) then 0
                  else bisect_left (sorted_keys s) (hash s key))
           \<and> (if \<exists>q\<in>dom (ring s). hash s key \<le> q
               then p = Min {q \<in> dom (ring s). hash s key \<le> q}
               else p = Min (dom (ring s)))
           \<and> (Max (dom (ring s)) < hash s key \<longrightarrow> p = Min (dom (ring s)))"
proof -
  let ?xs = "sorted_keys s"
  let ?h = "hash s key"
  let ?k = "bisect_left ?xs ?h"
  let ?idx = "if ?k = length ?xs then 0 else ?k"
  let ?p = "?xs ! ?idx"
  have nonempty: "?xs \<noteq> []"
  proof
    assume "?xs = []"
    then have "dom (ring s) = {}"
      using eq by simp
    then show False
      using ne by simp
  qed
  have fin: "finite (dom (ring s))"
    using eq [symmetric] by simp
  have k_le: "?k \<le> length ?xs"
    and below: "\<And>i. i < ?k \<Longrightarrow> ?xs ! i < ?h"
    and above: "\<And>i. ?k \<le> i \<Longrightarrow> i < length ?xs \<Longrightarrow> ?h \<le> ?xs ! i"
    using bisect_left_spec [OF so, of ?h] by auto
  have idx: "?idx < length ?xs"
    using k_le nonempty by auto
  then have p_in: "?p \<in> dom (ring s)"
    using eq nth_mem by blast
  then obtain n where n: "ring s ?p = Some n"
    by blast
  have res: "get_node s key = (s, Inr (Some n))"
    using ne idx n by (simp add: get_node_def Let_def)
  have succ: "if \<exists>q\<in>dom (ring s). ?h \<le> q
              then ?p = Min {q \<in> dom (ring s). ?h \<le> q}
              else ?p = Min (dom (ring s))"
  proof (cases "?k = length ?xs")
    case True
    have "q < ?h" if "q \<in> dom (ring s)" for q
    proof -
      have "q \<in> set ?xs"
        using that eq by simp
      from nth_of_mem [OF this] obtain j where j: "j < length ?xs" "q = ?xs ! j"
        by blast
      have "j < ?k"
        using j(1) True by simp
      from below [OF this] show ?thesis
        by (simp only: j(2))
    qed
    then have none: "\<not> (\<exists>q\<in>dom (ring s). ?h \<le> q)"
      by (meson not_le)
    have "?p = Min (dom (ring s))"
      using True sorted_nth0_Min [OF so nonempty] eq by simp
    then show ?thesis
      using none by simp
  next
    case False
    then have k: "?k < length ?xs" "?idx = ?k"
      using k_le by auto
    have ge: "?h \<le> ?p"
      using above [of ?k] k by simp
    have least: "?p \<le> q" if "q \<in> dom (ring s)" "?h \<le> q" for q
    proof -
      have "q \<in> set ?xs"
        using that(1) eq by simp
      from nth_of_mem [OF this] obtain j where j: "j < length ?xs" "q = ?xs ! j"
        by blast
      have "\<not> j < ?k"
      proof
        assume "j < ?k"
        from below [OF this] show False
          using that(2) j(2) by simp
      qed
      then have "?k \<le> j"
        by simp
      then have "?xs ! ?k \<le> ?xs ! j"
        using so j(1) by (simp add: sorted_nth_mono)
      then show ?thesis
        using j(2) k(2) by simp
    qed
    have "Min {q \<in> dom (ring s). ?h \<le> q} = ?p"
      using fin p_in ge least by (intro Min_eqI) auto
    then show ?thesis
      using p_in ge by auto
  qed
  have wrap: "?p = Min (dom (ring s))" if "Max (dom (ring s)) < ?h"
  proof -
    have "q < ?h" if "q \<in> dom (ring s)" for q
      using Max_ge [OF fin that] \<open>Max (dom (ring s)) < ?h\<close> by simp
    then have "\<not> (\<exists>q\<in>dom (ring s). ?h \<le> q)"
      by (meson not_le)
    then show ?thesis
      using succ by simp
  qed
  show ?thesis
    apply (rule exI [of _ ?p])
    apply (rule exI [of _ n])
    apply (intro conjI impI)
        apply (rule res)
       apply (rule n)
      apply (rule refl)
     apply (rule succ)
    apply (erule wrap)
    done
qed

section \<open>Rings built within the contract\<close>










section \<open>What every call keeps, and what removal reports\<close>





lemma remove_loop_ring_None:
  "ring s p = None \<Longrightarrow> ring (fst (remove_loop node s js)) p = None"
  by (induction js arbitrary: s) (simp_all add: Let_def)

lemma remove_node_first_position:
  assumes "0 < replicas s"
  shows "(remove_node s node = (s, Inl KeyError)) = (ring s (hash s (vnode_key node 0)) = None)"
proof
  let ?h = "hash s (vnode_key node 0)"
  have js: "[0..<nat (replicas s)] = 0 # [1..<nat (replicas s)]"
    using assms by (simp add: upt_conv_Cons)
  show "remove_node s node = (s, Inl KeyError)" if "ring s ?h = None"
    using that by (simp add: remove_node_def js)
  show "ring s ?h = None" if same: "remove_node s node = (s, Inl KeyError)"
  proof (rule ccontr)
    assume occ: "ring s ?h \<noteq> None"
    let ?s1 = "s\<lparr>ring := (ring s)(?h := None)\<rparr>"
    have gone: "ring ?s1 ?h = None"
      by simp
    have "ring (fst (remove_node s node)) ?h = None"
    proof (cases "?h \<in> set (sorted_keys s)")
      case False
      then show ?thesis
        using occ by (simp add: remove_node_def js Let_def)
    next
      case True
      let ?s2 = "?s1\<lparr>sorted_keys := remove1 ?h (sorted_keys ?s1)\<rparr>"
      have "ring ?s2 ?h = None"
        by simp
      then have "ring (fst (remove_loop node ?s2 [1..<nat (replicas s)])) ?h = None"
        by (rule remove_loop_ring_None)
      then show ?thesis
        using occ True by (simp add: remove_node_def js Let_def)
    qed
    then show False
      using occ by (simp add: same)
  qed
qed

lemma remove_node_no_replicas: "replicas s \<le> 0 \<Longrightarrow> remove_node s node = (s, Inr ())"
  by (simp add: remove_node_def)




section \<open>Small rings, evaluated\<close>

lemmas ring_eval = init_def add_node_def add_vnode_def remove_node_def Let_def upt_rec
  vnode_key_0 hash_A0 hash_B0 hash_n47651 hash_n73991

lemma init_A:
  "init (Some [''A'']) 1
     = \<lparr>replicas = 1, ring = [1474421281 \<mapsto> ''A''], sorted_keys = [1474421281]\<rparr>"
  by (simp add: ring_eval)

lemma init_AB:
  "init (Some [''A'', ''B'']) 1
     = \<lparr>replicas = 1, ring = [1474421281 \<mapsto> ''A'', 720967041 \<mapsto> ''B''],
        sorted_keys = [720967041, 1474421281]\<rparr>"
  by (simp add: ring_eval)


lemma init_n47651:
  "init (Some [''n47651'']) 1
     = \<lparr>replicas = 1, ring = [1196326569 \<mapsto> ''n47651''], sorted_keys = [1196326569]\<rparr>"
  by (simp add: ring_eval)

lemma positions_B: "replicas s = 1 \<Longrightarrow> positions s ''B'' = [720967041]"
  by (simp add: positions_def upt_rec vnode_key_0 hash_B0)

lemma fresh_A_B: "fresh (init (Some [''A'']) 1) ''B''"
  by (simp add: fresh_def positions_B init_A)



lemma collided_ring_eval:
  "collided_ring = \<lparr>replicas = 1, ring = [1474421281 \<mapsto> ''A''],
                     sorted_keys = [1196326569, 1474421281]\<rparr>"
  by (simp add: collided_ring_def init_n47651) (simp add: ring_eval)

lemma remove_collided_eval:
  "remove_node (init (Some [''n47651'']) 1) ''n73991''
     = (\<lparr>replicas = 1, ring = Map.empty, sorted_keys = []\<rparr>, Inr ())"
  by (simp add: init_n47651) (simp add: ring_eval)


lemma get_node_AB_k: "get_node (init (Some [''A'', ''B'']) 1) ''k''
   = (init (Some [''A'', ''B'']) 1, Inr (Some ''B''))"
  by (simp add: init_AB get_node_def bisect_left_def bisect_loop.simps hash_k Let_def)

section \<open>The claims\<close>

text \<open>
  C1, as amended. On a ring that is not empty, whose sequence is sorted and holds the
  positions of the map, \<^verbatim>\<open>get_node\<close> returns the node that owns the position \<open>p\<close> found by the
  binary search for \<open>h = hash(key)\<close>: the smallest occupied position that is at least
  \<open>h\<close>, or the smallest occupied position when none is. In particular a key whose hash
  exceeds the largest occupied position gets the node of the smallest one.
\<close>

theorem get_node_successor:
  assumes "ring s \<noteq> Map.empty"
    and "sorted (sorted_keys s)"
    and "set (sorted_keys s) = dom (ring s)"
  shows "\<exists>p n. get_node s key = (s, Inr (Some n)) \<and> ring s p = Some n
           \<and> p = sorted_keys s !
                 (if bisect_left (sorted_keys s) (hash s key) = length (sorted_keys s) then 0
                  else bisect_left (sorted_keys s) (hash s key))
           \<and> (if \<exists>q\<in>dom (ring s). hash s key \<le> q
               then p = Min {q \<in> dom (ring s). hash s key \<le> q}
               else p = Min (dom (ring s)))
           \<and> (Max (dom (ring s)) < hash s key \<longrightarrow> p = Min (dom (ring s)))"
  using assms by (rule successor_lookup)

theorem get_node_successor_witness:
  "ring (init (Some [''A'', ''B'']) 1) \<noteq> Map.empty
   \<and> sorted (sorted_keys (init (Some [''A'', ''B'']) 1))
   \<and> set (sorted_keys (init (Some [''A'', ''B'']) 1)) = dom (ring (init (Some [''A'', ''B'']) 1))
   \<and> Max (dom (ring (init (Some [''A'', ''B'']) 1))) < hash (init (Some [''A'', ''B'']) 1) ''k''
   \<and> (\<exists>n. get_node (init (Some [''A'', ''B'']) 1) ''k''
              = (init (Some [''A'', ''B'']) 1, Inr (Some n))
            \<and> ring (init (Some [''A'', ''B'']) 1) (Min (dom (ring (init (Some [''A'', ''B'']) 1))))
                = Some n)"
proof -
  let ?s = "init (Some [''A'', ''B'']) 1"
  have h1: "ring ?s \<noteq> Map.empty"
    by (simp add: init_AB)
  have h2: "sorted (sorted_keys ?s)"
    by (simp add: init_AB)
  have h3: "set (sorted_keys ?s) = dom (ring ?s)"
    by (simp add: init_AB)
  have far: "Max (dom (ring ?s)) < hash ?s ''k''"
    by (simp add: init_AB hash_k)
  from get_node_successor [OF h1 h2 h3, of "''k''"]
  obtain p n where "get_node ?s ''k'' = (?s, Inr (Some n))" "ring ?s p = Some n"
    "Max (dom (ring ?s)) < hash ?s ''k'' \<longrightarrow> p = Min (dom (ring ?s))"
    by blast
  then have "get_node ?s ''k'' = (?s, Inr (Some n)) \<and> ring ?s (Min (dom (ring ?s))) = Some n"
    using far by simp
  then have "\<exists>n. get_node ?s ''k'' = (?s, Inr (Some n)) \<and> ring ?s (Min (dom (ring ?s))) = Some n"
    ..
  with h1 h2 h3 far show ?thesis
    by (intro conjI)
qed

text \<open>
  The claim as stated fails on a ring whose sequence holds a position that the map has
  lost: in \<open>collided_ring\<close> the only occupied position is \<open>1474421281\<close>, owned by \<open>A\<close>
  and above the hash \<open>1196326569\<close> of the key \<^verbatim>\<open>n47651:0\<close>, and \<^verbatim>\<open>get_node\<close> raises
  KeyError instead of returning \<open>A\<close>.
\<close>

theorem get_node_successor_counterexample:
  "ring collided_ring \<noteq> Map.empty
   \<and> dom (ring collided_ring) = {1474421281}
   \<and> ring collided_ring 1474421281 = Some ''A''
   \<and> hash collided_ring ''n47651:0'' = 1196326569
   \<and> get_node collided_ring ''n47651:0'' = (collided_ring, Inl KeyError)"
  by (simp add: collided_ring_eval get_node_def bisect_left_def bisect_loop.simps
      hash_n47651 Let_def)







text \<open>
  C4, as amended. When the sequence is sorted and the positions of \<open>X\<close> are pairwise
  distinct and unoccupied, \<^verbatim>\<open>add_node(X)\<close> followed by \<^verbatim>\<open>remove_node(X)\<close> raises nothing
  and gives back the very object it started from.
\<close>

theorem add_then_remove:
  assumes "sorted (sorted_keys s)" and "fresh s node"
  shows "remove_node (fst (add_node s node)) node = (s, Inr ())"
proof -
  let ?s1 = "fst (add_node s node)"
  let ?f = "\<lambda>i. hash s (vnode_key node i)"
  let ?js = "[0..<nat (replicas ?s1)]"
  have ps: "map ?f ?js = positions s node"
    by (simp add: positions_def add_node_replicas)
  have d: "distinct (map ?f ?js)"
    using assms(2) by (simp add: ps fresh_def)
  have sub1: "set (map ?f ?js) \<subseteq> dom (ring ?s1)"
    unfolding ps add_node_dom by blast
  have sub2: "set (map ?f ?js) \<subseteq> set (sorted_keys ?s1)"
    unfolding ps add_node_sorted_keys by simp
  have free: "ring s p = None" if "p \<in> set (positions s node)" for p
    using assms(2) that unfolding fresh_def by (meson disjoint_iff domIff)
  have r: "(\<lambda>p. if p \<in> set (positions s node) then None else ring ?s1 p) = ring s"
    by (intro ext) (simp add: add_node_ring free)
  have k: "fold remove1 (positions s node) (sorted_keys ?s1) = sorted_keys s"
    by (simp add: add_node_sorted_keys add_remove_sorted_keys [OF assms(1)])
  show ?thesis
    unfolding remove_node_def remove_loop_ok [of node ?f, OF hash_self d sub1 sub2] ps r k
    by (simp add: add_node_replicas consistent_hash.equality)
qed

theorem add_then_remove_witness:
  "sorted (sorted_keys (init (Some [''A'']) 1)) \<and> fresh (init (Some [''A'']) 1) ''B''
   \<and> remove_node (fst (add_node (init (Some [''A'']) 1) ''B'')) ''B''
       = (init (Some [''A'']) 1, Inr ())"
proof -
  have s: "sorted (sorted_keys (init (Some [''A'']) 1))"
    by (simp add: init_A)
  from s fresh_A_B add_then_remove [OF s fresh_A_B] show ?thesis
    by (intro conjI)
qed

text \<open>
  The claim as stated fails for a node that is in the ring: on \<^verbatim>\<open>ConsistentHash(["A"], 1)\<close>,
  \<^verbatim>\<open>add_node("A")\<close> then \<^verbatim>\<open>remove_node("A")\<close> empties the map and keeps the position
  in the sequence. It also fails for a node that is not in the ring but collides with
  one: on \<^verbatim>\<open>ConsistentHash(["n47651"], 1)\<close>, adding and removing \<open>n73991\<close> takes the
  position of \<open>n47651\<close> out of the map.
\<close>

theorem add_then_remove_counterexample:
  "fst (remove_node (fst (add_node (init (Some [''A'']) 1) ''A'')) ''A'') \<noteq> init (Some [''A'']) 1
   \<and> ring (init (Some [''A'']) 1) 1474421281 = Some ''A''
   \<and> remove_node (fst (add_node (init (Some [''A'']) 1) ''A'')) ''A''
       = (\<lparr>replicas = 1, ring = Map.empty, sorted_keys = [1474421281]\<rparr>, Inr ())
   \<and> ring (init (Some [''n47651'']) 1) 1196326569 = Some ''n47651''
   \<and> remove_node (fst (add_node (init (Some [''n47651'']) 1) ''n73991'')) ''n73991''
       = (\<lparr>replicas = 1, ring = Map.empty, sorted_keys = [1196326569]\<rparr>, Inr ())"
proof -
  have "remove_node (fst (add_node (init (Some [''A'']) 1) ''A'')) ''A''
          = (\<lparr>replicas = 1, ring = Map.empty, sorted_keys = [1474421281]\<rparr>, Inr ())"
    by (simp add: init_A) (simp add: ring_eval)
  moreover have "remove_node (fst (add_node (init (Some [''n47651'']) 1) ''n73991'')) ''n73991''
          = (\<lparr>replicas = 1, ring = Map.empty, sorted_keys = [1196326569]\<rparr>, Inr ())"
    by (simp add: init_n47651) (simp add: ring_eval)
  moreover have "(Map.empty :: nat \<rightharpoonup> string) \<noteq> [1474421281 \<mapsto> ''A'']"
    by (rule not_sym) simp
  ultimately show ?thesis
    by (simp add: init_A init_n47651)
qed



text \<open>
  C6. On a ring whose map has no position, \<^verbatim>\<open>get_node\<close> returns \<^verbatim>\<open>None\<close> for every
  key and raises nothing.
\<close>

theorem get_node_empty: "ring s = Map.empty \<Longrightarrow> get_node s key = (s, Inr None)"
  by (simp add: get_node_def)

theorem get_node_empty_witness:
  "ring (init None 100) = Map.empty
   \<and> get_node (init None 100) ''user-42'' = (init None 100, Inr None)"
proof -
  have e: "ring (init None 100) = Map.empty"
    by (simp add: init_def)
  show ?thesis
    using e get_node_empty [OF e, of "''user-42''"] by simp
qed

text \<open>
  C7, as amended. \<^verbatim>\<open>add_node\<close> never reports an error: it returns normally for every
  node, present or not. \<^verbatim>\<open>remove_node\<close>, on a ring with a positive replica count, raises
  KeyError with the ring unchanged exactly when the first position of the node is
  unoccupied; with a replica count of zero or less it returns normally and changes
  nothing.
\<close>

theorem precondition_outcomes:
  "snd (add_node s node) = Inr ()
   \<and> (0 < replicas s \<longrightarrow>
        (remove_node s node = (s, Inl KeyError)) = (ring s (hash s (vnode_key node 0)) = None))
   \<and> (replicas s \<le> 0 \<longrightarrow> remove_node s node = (s, Inr ()))"
  by (simp add: add_node_result remove_node_first_position remove_node_no_replicas)

theorem precondition_outcomes_witness:
  "0 < replicas (init (Some [''A'']) 1)
   \<and> ring (init (Some [''A'']) 1) (hash (init (Some [''A'']) 1) (vnode_key ''B'' 0)) = None
   \<and> remove_node (init (Some [''A'']) 1) ''B'' = (init (Some [''A'']) 1, Inl KeyError)
   \<and> 0 < replicas (init (Some [''n47651'']) 1)
   \<and> ring (init (Some [''n47651'']) 1)
        (hash (init (Some [''n47651'']) 1) (vnode_key ''n73991'' 0)) \<noteq> None
   \<and> remove_node (init (Some [''n47651'']) 1) ''n73991''
       \<noteq> (init (Some [''n47651'']) 1, Inl KeyError)
   \<and> replicas (init None 0) \<le> 0
   \<and> remove_node (init None 0) ''A'' = (init None 0, Inr ())"
proof -
  let ?a = "init (Some [''A'']) 1"
  let ?n = "init (Some [''n47651'']) 1"
  have p: "0 < replicas ?a"
    by (simp add: init_A)
  have a: "ring ?a (hash ?a (vnode_key ''B'' 0)) = None"
    by (simp add: init_A vnode_key_0 hash_B0)
  from precondition_outcomes [of ?a "''B''"] p a
  have r1: "remove_node ?a ''B'' = (?a, Inl KeyError)"
    by blast
  have q: "0 < replicas ?n"
    by (simp add: init_n47651)
  have b: "ring ?n (hash ?n (vnode_key ''n73991'' 0)) \<noteq> None"
    by (simp add: init_n47651 vnode_key_0 hash_n73991)
  from precondition_outcomes [of ?n "''n73991''"] q b
  have r2: "remove_node ?n ''n73991'' \<noteq> (?n, Inl KeyError)"
    by blast
  have z: "replicas (init None 0) \<le> 0"
    by (simp add: init_def)
  from precondition_outcomes [of "init None 0" "''A''"] z
  have r3: "remove_node (init None 0) ''A'' = (init None 0, Inr ())"
    by blast
  from p a r1 q b r2 z r3 show ?thesis
    by (intro conjI)
qed

text \<open>
  The claim as stated fails in both halves. On \<^verbatim>\<open>ConsistentHash(["A"], 1)\<close>,
  \<^verbatim>\<open>add_node("A")\<close> returns normally and appends the position of \<open>A\<close> a second time. On
  \<^verbatim>\<open>ConsistentHash(["n47651"], 1)\<close>, \<^verbatim>\<open>remove_node("n73991")\<close> for the node \<open>n73991\<close>,
  which was never added, returns normally and empties the ring, because its label
  collides with that of \<open>n47651\<close>.
\<close>

theorem duplicate_add_counterexample:
  "ring (init (Some [''A'']) 1) 1474421281 = Some ''A''
   \<and> add_node (init (Some [''A'']) 1) ''A''
       = (\<lparr>replicas = 1, ring = [1474421281 \<mapsto> ''A''],
           sorted_keys = [1474421281, 1474421281]\<rparr>, Inr ())
   \<and> ran (ring (init (Some [''n47651'']) 1)) = {''n47651''}
   \<and> remove_node (init (Some [''n47651'']) 1) ''n73991''
       = (\<lparr>replicas = 1, ring = Map.empty, sorted_keys = []\<rparr>, Inr ())"
proof -
  have "add_node (init (Some [''A'']) 1) ''A''
       = (\<lparr>replicas = 1, ring = [1474421281 \<mapsto> ''A''],
           sorted_keys = [1474421281, 1474421281]\<rparr>, Inr ())"
    by (simp add: init_A) (simp add: ring_eval)
  then show ?thesis
    using remove_collided_eval by (simp add: init_A init_n47651)
qed

text \<open>
  C8, as amended. \<^verbatim>\<open>add_node\<close> resolves every collision as last writer wins and detects
  none: it raises nothing, and afterwards each position of the added node maps to the
  added node, whichever node held it before.
\<close>

theorem add_node_last_writer_wins:
  assumes "i < nat (replicas s)"
  shows "ring (fst (add_node s node)) (hash s (vnode_key node i)) = Some node
         \<and> snd (add_node s node) = Inr ()"
  using assms by (simp add: add_node_ring add_node_result positions_def)

theorem add_node_last_writer_wins_witness:
  "0 < nat (replicas (init (Some [''n47651'']) 1))
   \<and> ring (fst (add_node (init (Some [''n47651'']) 1) ''n73991''))
        (hash (init (Some [''n47651'']) 1) (vnode_key ''n73991'' 0)) = Some ''n73991''
   \<and> snd (add_node (init (Some [''n47651'']) 1) ''n73991'') = Inr ()"
proof -
  have p: "0 < nat (replicas (init (Some [''n47651'']) 1))"
    by (simp add: init_n47651)
  from p add_node_last_writer_wins [OF p, of "''n73991''"] show ?thesis
    by (intro conjI) blast+
qed

text \<open>
  The claim as stated fails: the labels \<^verbatim>\<open>n47651:0\<close> and \<^verbatim>\<open>n73991:0\<close> hash to the same
  position \<open>1196326569\<close>, and on \<^verbatim>\<open>ConsistentHash(["n47651"], 1)\<close> the call
  \<^verbatim>\<open>add_node("n73991")\<close> returns normally with the position handed over to the new node.
\<close>

theorem collision_counterexample:
  "vnode_key ''n47651'' 0 \<noteq> vnode_key ''n73991'' 0
   \<and> hash (init (Some [''n47651'']) 1) (vnode_key ''n47651'' 0)
       = hash (init (Some [''n47651'']) 1) (vnode_key ''n73991'' 0)
   \<and> ring (init (Some [''n47651'']) 1) 1196326569 = Some ''n47651''
   \<and> add_node (init (Some [''n47651'']) 1) ''n73991''
       = (\<lparr>replicas = 1, ring = [1196326569 \<mapsto> ''n73991''],
           sorted_keys = [1196326569, 1196326569]\<rparr>, Inr ())"
  by (simp add: init_n47651) (simp add: ring_eval)

text \<open>
  C9. Two calls of \<^verbatim>\<open>_hash\<close> on the same string give the same number, whatever the
  state of the object they are called on, and that number lies in \<open>[0, 2 ^ 32)\<close>.
\<close>

theorem hash_deterministic_u32: "hash s x = hash s' x \<and> hash s x < 2 ^ 32"
proof
  show "hash s x = hash s' x"
    by (simp add: hash_def)
  obtain w where "take 4 (md5_digest (encode_utf8 x)) = le_bytes32 w"
    using take4_md5_digest by blast
  then show "hash s x < 2 ^ 32"
    using unpack_be_le_bytes32 [of w] by (simp add: hash_def)
qed

text \<open>
  C10. \<^verbatim>\<open>get_node\<close> only reads: whatever it returns or raises, the map, the sorted
  sequence and the replica count of the object are those it was called with.
\<close>

theorem get_node_pure: "fst (get_node s key) = s"
  by (simp add: get_node_def Let_def split: option.splits)

end
